theory Spec2Isabelle
  imports Main "HOL-Library.Word"
begin

unbundle bit_operations_syntax

section \<open>Machine types and module state of crc32c.cpp\<close>

type_synonym u8 = "8 word"
type_synonym u32 = "32 word"
type_synonym u64 = "64 word"

text \<open>The CRC-32C polynomial in reversed bit order (\<^verbatim>\<open>#define CRC32C_POLYNOMIAL\<close>).\<close>

definition CRC32C_POLYNOMIAL :: u32 where
  "CRC32C_POLYNOMIAL = 0x82f63b78"

text \<open>
  \<^verbatim>\<open>static uint32_t crc32cTable[8][256]\<close>: a list of rows. Static storage starts
  zeroed; \<open>initCrcTable\<close> takes the table and returns the updated one.
\<close>

type_synonym crc_table = "u32 list list"

definition crc32cTable_static :: crc_table where
  "crc32cTable_static = replicate 8 (replicate 256 0)"

definition table_get :: "crc_table \<Rightarrow> nat \<Rightarrow> nat \<Rightarrow> u32" where
  "table_get t j i = t ! j ! i"

definition table_set :: "crc_table \<Rightarrow> nat \<Rightarrow> nat \<Rightarrow> u32 \<Rightarrow> crc_table" where
  "table_set t j i v = t[j := (t ! j)[i := v]]"

section \<open>initCrcTable\<close>

text \<open>One line \<^verbatim>\<open>crc = crc & 1 ? (crc >> 1) ^ CRC32C_POLYNOMIAL : crc >> 1;\<close>\<close>

definition shift_xor :: "u32 \<Rightarrow> u32" where
  "shift_xor crc =
     (if crc AND 1 \<noteq> 0 then drop_bit 1 crc XOR CRC32C_POLYNOMIAL else drop_bit 1 crc)"

text \<open>Body of the first loop (lines 89 to 98), for one \<open>i\<close>.\<close>

definition init_row0 :: "nat \<Rightarrow> crc_table \<Rightarrow> crc_table" where
  "init_row0 i t =
     (let crc = (of_nat i :: u32);
          crc = shift_xor crc;
          crc = shift_xor crc;
          crc = shift_xor crc;
          crc = shift_xor crc;
          crc = shift_xor crc;
          crc = shift_xor crc;
          crc = shift_xor crc;
          crc = shift_xor crc
      in table_set t 0 i crc)"

text \<open>Body of the inner loop of the second loop (lines 104 and 105), for one \<open>j\<close>.\<close>

definition derive_entry :: "nat \<Rightarrow> nat \<Rightarrow> u32 \<times> crc_table \<Rightarrow> u32 \<times> crc_table" where
  "derive_entry i j st =
     (let crc = fst st; t = snd st;
          crc = table_get t 0 (unat (crc AND 0xff)) XOR drop_bit 8 crc
      in (crc, table_set t j i crc))"

text \<open>Body of the second outer loop (lines 102 to 106), for one \<open>i\<close>.\<close>

definition init_column :: "nat \<Rightarrow> crc_table \<Rightarrow> crc_table" where
  "init_column i t = snd (fold (derive_entry i) [1..<8] (table_get t 0 i, t))"

definition initCrcTable :: "crc_table \<Rightarrow> crc_table" where
  "initCrcTable t = fold init_column [0..<256] (fold init_row0 [0..<256] t)"

text \<open>The table every computation reads: the module's \<open>init\<close> runs \<open>initCrcTable\<close> once.\<close>

definition crc32cTable :: crc_table where
  "crc32cTable = initCrcTable crc32cTable_static"

section \<open>Build targets and capability detection\<close>

text \<open>
  What the source leaves to the build target: the branch of \<open>cpuid\<close> the preprocessor
  keeps, the signedness of plain \<^verbatim>\<open>char\<close>, and the byte order in which the host lays
  out a \<^verbatim>\<open>uint64_t\<close> in memory. The three x86 branches of \<open>cpuid\<close> are little-endian
  hosts; any other target brings its own byte order. \<open>cpuid_insn\<close> is the processor's
  answer (eax, ebx, ecx, edx) to the CPUID instruction for a leaf.
\<close>

datatype byte_order = LittleEndian | BigEndian

datatype target = MSVC | X86_64 | I386 | Other byte_order

record platform =
  target :: target
  char_signed :: bool
  cpuid_insn :: "u32 \<Rightarrow> u32 \<times> u32 \<times> u32 \<times> u32"

fun host_byte_order :: "target \<Rightarrow> byte_order" where
  "host_byte_order (Other bo) = bo"
| "host_byte_order _ = LittleEndian"

text \<open>\<^verbatim>\<open>void cpuid(uint32_t op, uint32_t reg[4])\<close>, returning \<open>reg\<close>.\<close>

definition cpuid :: "platform \<Rightarrow> u32 \<Rightarrow> u32 list" where
  "cpuid plat op =
     (case target plat of
        MSVC \<Rightarrow> (case cpuid_insn plat 1 of (a, b, c, d) \<Rightarrow> [a, b, c, d])
      | X86_64 \<Rightarrow> (case cpuid_insn plat op of (a, b, c, d) \<Rightarrow> [a, b, c, d])
      | I386 \<Rightarrow> (case cpuid_insn plat op of (a, b, c, d) \<Rightarrow> [a, b, c, d])
      | Other _ \<Rightarrow> [0, 0, 0, 0])"

definition isSSE42Available :: "platform \<Rightarrow> bool" where
  "isSSE42Available plat =
     (let reg = cpuid plat 1 in (drop_bit 20 (reg ! 2)) AND 1 = 1)"

section \<open>Memory\<close>

text \<open>
  A byte-addressed store. Pointers, \<^verbatim>\<open>uintptr_t\<close> and \<^verbatim>\<open>size_t\<close> are taken as 64-bit
  words, their width on the 64-bit targets; pointer arithmetic wraps at \<open>2 ^ 64\<close>.
  \<open>buf_bytes mem buf n\<close> is the content of the \<open>n\<close> bytes starting at \<open>buf\<close>.
\<close>

type_synonym memory = "u64 \<Rightarrow> u8"

definition buf_bytes :: "memory \<Rightarrow> u64 \<Rightarrow> nat \<Rightarrow> u8 list" where
  "buf_bytes mem buf n = map (\<lambda>k. mem (buf + of_nat k)) [0..<n]"

text \<open>
  \<^verbatim>\<open>*next\<close> used as an operand of \<^verbatim>\<open>^\<close> with a \<^verbatim>\<open>uint64_t\<close>: the \<^verbatim>\<open>char\<close> is promoted to
  \<^verbatim>\<open>int\<close> and converted to 64 bits, sign-extended where \<^verbatim>\<open>char\<close> is signed.
\<close>

definition char_value :: "platform \<Rightarrow> u8 \<Rightarrow> u64" where
  "char_value plat b = (if char_signed plat then scast b else ucast b)"

text \<open>The 64-bit value whose bytes, least significant first, are the list.\<close>

fun word_le :: "u8 list \<Rightarrow> u64" where
  "word_le [] = 0"
| "word_le (b # bs) = ucast b OR push_bit 8 (word_le bs)"

text \<open>\<^verbatim>\<open>*(uint64_t *) next\<close>: the host's own reading of eight bytes of memory.\<close>

definition load_u64 :: "platform \<Rightarrow> memory \<Rightarrow> u64 \<Rightarrow> u64" where
  "load_u64 plat mem p =
     (case host_byte_order (target plat) of
        LittleEndian \<Rightarrow> word_le (buf_bytes mem p 8)
      | BigEndian \<Rightarrow> word_le (rev (buf_bytes mem p 8)))"

section \<open>swCrc32c\<close>

text \<open>The local variables \<open>next\<close>, \<open>len\<close> and \<open>crc\<close>.\<close>

record sw_state =
  "next" :: u64
  len :: u64
  crc :: u64

text \<open>
  The leading loop (lines 131 to 134) and the trailing loop (lines 148 to 151) share
  their body.
\<close>

definition lead_cond :: "sw_state \<Rightarrow> bool" where
  "lead_cond s = (len s \<noteq> 0 \<and> next s AND 7 \<noteq> 0)"

definition tail_cond :: "sw_state \<Rightarrow> bool" where
  "tail_cond s = (len s \<noteq> 0)"

definition byte_body :: "platform \<Rightarrow> crc_table \<Rightarrow> memory \<Rightarrow> sw_state \<Rightarrow> sw_state" where
  "byte_body plat tbl mem s =
     \<lparr>next = next s + 1,
      len = len s - 1,
      crc = ucast (table_get tbl 0 (unat ((crc s XOR char_value plat (mem (next s))) AND 0xff)))
              XOR drop_bit 8 (crc s)\<rparr>"

text \<open>The loop over eight bytes at a time (lines 137 to 145).\<close>

definition bulk_cond :: "sw_state \<Rightarrow> bool" where
  "bulk_cond s = (8 \<le> len s)"

definition bulk_body :: "platform \<Rightarrow> crc_table \<Rightarrow> memory \<Rightarrow> sw_state \<Rightarrow> sw_state" where
  "bulk_body plat tbl mem s =
     (let c = crc s XOR load_u64 plat mem (next s)
      in \<lparr>next = next s + 8,
          len = len s - 8,
          crc = ucast
            (table_get tbl 7 (unat (drop_bit 0 c AND 0xff))
               XOR table_get tbl 6 (unat (drop_bit 8 c AND 0xff))
               XOR table_get tbl 5 (unat (drop_bit 16 c AND 0xff))
               XOR table_get tbl 4 (unat (drop_bit 24 c AND 0xff))
               XOR table_get tbl 3 (unat (drop_bit 32 c AND 0xff))
               XOR table_get tbl 2 (unat (drop_bit 40 c AND 0xff))
               XOR table_get tbl 1 (unat (drop_bit 48 c AND 0xff))
               XOR table_get tbl 0 (unat (drop_bit 56 c)))\<rparr>)"

function lead_loop :: "platform \<Rightarrow> crc_table \<Rightarrow> memory \<Rightarrow> sw_state \<Rightarrow> sw_state" where
  "lead_loop plat tbl mem s =
     (if lead_cond s then lead_loop plat tbl mem (byte_body plat tbl mem s) else s)"
  by pat_completeness auto
termination
  by (relation "measure (\<lambda>(plat, tbl, mem, s). unat (len s))")
     (auto simp: lead_cond_def byte_body_def measure_unat)

function bulk_loop :: "platform \<Rightarrow> crc_table \<Rightarrow> memory \<Rightarrow> sw_state \<Rightarrow> sw_state" where
  "bulk_loop plat tbl mem s =
     (if bulk_cond s then bulk_loop plat tbl mem (bulk_body plat tbl mem s) else s)"
  by pat_completeness auto
termination
  by (relation "measure (\<lambda>(plat, tbl, mem, s). unat (len s))")
     (auto simp: bulk_cond_def bulk_body_def Let_def unat_sub word_le_nat_alt)

function tail_loop :: "platform \<Rightarrow> crc_table \<Rightarrow> memory \<Rightarrow> sw_state \<Rightarrow> sw_state" where
  "tail_loop plat tbl mem s =
     (if tail_cond s then tail_loop plat tbl mem (byte_body plat tbl mem s) else s)"
  by pat_completeness auto
termination
  by (relation "measure (\<lambda>(plat, tbl, mem, s). unat (len s))")
     (auto simp: tail_cond_def byte_body_def measure_unat)

text \<open>
  The 64-bit value of \<open>crc\<close> that a \<^verbatim>\<open>return\<close> statement of \<open>swCrc32c\<close> casts to
  \<^verbatim>\<open>uint32_t\<close>: \<open>crc\<close> itself when \<open>len == 0\<close> (line 125), and \<^verbatim>\<open>crc ^= 0xFFFFFFFF\<close> after
  the three loops otherwise (line 154).
\<close>

definition sw_accumulator ::
  "platform \<Rightarrow> crc_table \<Rightarrow> memory \<Rightarrow> u32 \<Rightarrow> u64 \<Rightarrow> u64 \<Rightarrow> u64" where
  "sw_accumulator plat tbl mem initialCrc buf n =
     (let c = (ucast initialCrc :: u64)
      in if n = 0 then c
         else
           let s = \<lparr>next = buf, len = n, crc = c XOR 0xFFFFFFFF\<rparr>;
               s = lead_loop plat tbl mem s;
               s = bulk_loop plat tbl mem s;
               s = tail_loop plat tbl mem s
           in crc s XOR 0xFFFFFFFF)"

definition swCrc32c :: "platform \<Rightarrow> crc_table \<Rightarrow> memory \<Rightarrow> u32 \<Rightarrow> u64 \<Rightarrow> u64 \<Rightarrow> u32" where
  "swCrc32c plat tbl mem initialCrc buf n = ucast (sw_accumulator plat tbl mem initialCrc buf n)"

section \<open>calculateCrc\<close>

text \<open>
  The arguments of a call as the binding sees them. A \<open>Number\<close> carries the value its
  \<^verbatim>\<open>Uint32Value()\<close> conversion yields, a \<open>Buffer\<close> the address of its data and its
  length. \<open>info[k]\<close> beyond the arguments passed is \<open>Undefined\<close>.
\<close>

datatype napi_value =
  Undefined | Boolean bool | Number u32 | String string | Buffer u64 u64 | Object

text \<open>
  The four \<^verbatim>\<open>Napi::TypeError\<close> exceptions of \<open>calculateCrc\<close>, in source order, and the
  error that \<^verbatim>\<open>info[1].As<Napi::String>().Utf8Value()\<close> (line 210) raises on a value that
  is not a string (``A string was expected'').
\<close>

datatype type_error =
  InvalidNumberOfArguments | UseHardwareCrcNotBoolean | InitialCrcNotNumber | CannotComputeForObjects
  | StringExpected

text \<open>
  What a call does: it returns a number, it throws, or it reaches the final
  \<^verbatim>\<open>return\<close> without ever having assigned \<open>crc\<close> (a string argument, whose
  computation is commented out in the source).
\<close>

datatype napi_result = Returned u32 | Thrown type_error | Unassigned

definition info_at :: "napi_value list \<Rightarrow> nat \<Rightarrow> napi_value" where
  "info_at info k = (if k < length info then info ! k else Undefined)"

text \<open>
  \<open>hwCrc32c\<close> is declared in \<^verbatim>\<open>crc32c.h\<close> and defined outside this file:
  \<open>calculateCrc\<close> takes it as a parameter.
\<close>

type_synonym engine = "memory \<Rightarrow> u32 \<Rightarrow> u64 \<Rightarrow> u64 \<Rightarrow> u32"

definition calculateCrc ::
  "platform \<Rightarrow> engine \<Rightarrow> crc_table \<Rightarrow> memory \<Rightarrow> napi_value list \<Rightarrow> napi_result" where
  "calculateCrc plat hw tbl mem info =
     (if length info < 1 then Returned 0
      else if length info > 3 then Thrown InvalidNumberOfArguments
      else
        case info_at info 0 of
          Boolean useHardwareCrc \<Rightarrow>
            (case (if length info > 2
                   then (case info_at info 2 of Number v \<Rightarrow> Some v | _ \<Rightarrow> None)
                   else Some 0) of
               None \<Rightarrow> Thrown InitialCrcNotNumber
             | Some initCrc \<Rightarrow>
                 (case info_at info 1 of
                    Buffer data n \<Rightarrow>
                      Returned (if useHardwareCrc then hw mem initCrc data n
                                else swCrc32c plat tbl mem initCrc data n)
                  | Object \<Rightarrow> Thrown CannotComputeForObjects
                  | String str \<Rightarrow> Unassigned
                  | _ \<Rightarrow> Thrown StringExpected))
        | _ \<Rightarrow> Thrown UseHardwareCrcNotBoolean)"

section \<open>The specification's table and its hardware engine\<close>

text \<open>
  The table generator in the words of the specification: eight iterations of
  ``if the low bit is set, shift right and XOR the polynomial; else shift right'',
  starting from the byte value.
\<close>

definition spec_bit_step :: "u32 \<Rightarrow> u32" where
  "spec_bit_step c = (if bit c 0 then drop_bit 1 c XOR 0x82F63B78 else drop_bit 1 c)"

definition spec_row0 :: "nat \<Rightarrow> u32" where
  "spec_row0 i = (spec_bit_step ^^ 8) (of_nat i)"

text \<open>
  Modelled from the spec: the hardware engine \<open>hwCrc32c\<close> (file \<^verbatim>\<open>crc32c_sse42.cpp\<close>) is
  missing from the sources. The specification gives it the signature of the software
  engine and says that it computes the same CRC-32C checksum with the processor's
  dedicated instruction. The instruction folds one byte into a 32-bit accumulator by the
  bit-at-a-time reduction with the bit-reflected Castagnoli polynomial; the checksum
  enters and leaves the complemented domain by an XOR with all-ones around the bytes of
  the buffer.
\<close>

definition crc32_u8 :: "u32 \<Rightarrow> u8 \<Rightarrow> u32" where
  "crc32_u8 c b = (spec_bit_step ^^ 8) (c XOR ucast b)"

definition hwCrc32c :: "memory \<Rightarrow> u32 \<Rightarrow> u64 \<Rightarrow> u64 \<Rightarrow> u32" where
  "hwCrc32c mem initialCrc buf n =
     fold (\<lambda>b c. crc32_u8 c b) (buf_bytes mem buf (unat n)) (initialCrc XOR 0xFFFFFFFF)
       XOR 0xFFFFFFFF"

section \<open>Notions used in the proofs\<close>

text \<open>The dimensions of \<^verbatim>\<open>crc32cTable[8][256]\<close>.\<close>

definition table_ok :: "crc_table \<Rightarrow> bool" where
  "table_ok t = (length t = 8 \<and> list_all (\<lambda>r. length r = 256) t)"

text \<open>
  The eight lines 90 to 97 applied to a value; one step from a row of the table to the
  next, first reading row 0 from a table and then in closed form.
\<close>

definition crc_byte :: "u32 \<Rightarrow> u32" where
  "crc_byte c = shift_xor (shift_xor (shift_xor (shift_xor (shift_xor (shift_xor (shift_xor (shift_xor c)))))))"

definition next_slice :: "crc_table \<Rightarrow> u32 \<Rightarrow> u32" where
  "next_slice t c = table_get t 0 (unat (c AND 0xff)) XOR drop_bit 8 c"

definition slice_step :: "u32 \<Rightarrow> u32" where
  "slice_step c = crc_byte (c AND 0xff) XOR drop_bit 8 c"

text \<open>
  The byte step on the 64-bit accumulator in closed form, and the entry of row \<open>j\<close>
  that the low byte of a word selects.
\<close>

definition fold64 :: "u64 \<Rightarrow> u64" where
  "fold64 x = ucast (crc_byte (ucast (x AND 0xff))) XOR drop_bit 8 x"

definition slice_entry :: "nat \<Rightarrow> u64 \<Rightarrow> u32" where
  "slice_entry j x = (slice_step ^^ j) (crc_byte (ucast (x AND 0xff)))"

text \<open>
  Processing bytes one at a time with row 0 of the table, reading each byte as
  unsigned: one step, a whole list, and the checksum with the two complements.
\<close>

definition byte_step :: "crc_table \<Rightarrow> u64 \<Rightarrow> u8 \<Rightarrow> u64" where
  "byte_step tbl c b =
     ucast (table_get tbl 0 (unat ((c XOR ucast b) AND 0xff))) XOR drop_bit 8 c"

definition bytewise :: "crc_table \<Rightarrow> u64 \<Rightarrow> u8 list \<Rightarrow> u64" where
  "bytewise tbl c bs = fold (\<lambda>b c. byte_step tbl c b) bs c"

definition crc32c_bytes :: "crc_table \<Rightarrow> u32 \<Rightarrow> u8 list \<Rightarrow> u32" where
  "crc32c_bytes tbl S bs =
     (if bs = [] then S
      else ucast (bytewise tbl (ucast S XOR 0xFFFFFFFF) bs XOR 0xFFFFFFFF))"

text \<open>The state after \<open>k\<close> bytes have been processed one at a time.\<close>

definition consumed :: "crc_table \<Rightarrow> memory \<Rightarrow> sw_state \<Rightarrow> nat \<Rightarrow> sw_state" where
  "consumed tbl mem s k =
     \<lparr>next = next s + of_nat k, len = len s - of_nat k,
      crc = bytewise tbl (crc s) (buf_bytes mem (next s) k)\<rparr>"

definition fits32 :: "u64 \<Rightarrow> bool" where
  "fits32 x = (x < 2 ^ 32)"

text \<open>
  The states at the iteration boundaries of a loop \<^verbatim>\<open>while (cond) body\<close> started in
  \<open>s\<close>: \<open>s\<close> itself, and the state after every iteration that the loop runs.
\<close>

inductive loop_boundary :: "('s \<Rightarrow> bool) \<Rightarrow> ('s \<Rightarrow> 's) \<Rightarrow> 's \<Rightarrow> 's \<Rightarrow> bool"
  for cond :: "'s \<Rightarrow> bool" and body :: "'s \<Rightarrow> 's" and s :: 's where
  entry: "loop_boundary cond body s s"
| iter: "loop_boundary cond body s t \<Longrightarrow> cond t \<Longrightarrow> loop_boundary cond body s (body t)"

code_pred loop_boundary .

text \<open>
  The state in which \<open>swCrc32c\<close> enters its first loop, and the states at the
  iteration boundaries of its three loops.
\<close>

definition sw_start :: "u32 \<Rightarrow> u64 \<Rightarrow> u64 \<Rightarrow> sw_state" where
  "sw_start initialCrc buf n = \<lparr>next = buf, len = n, crc = ucast initialCrc XOR 0xFFFFFFFF\<rparr>"

definition sw_boundary ::
  "platform \<Rightarrow> crc_table \<Rightarrow> memory \<Rightarrow> u32 \<Rightarrow> u64 \<Rightarrow> u64 \<Rightarrow> sw_state \<Rightarrow> bool" where
  "sw_boundary plat tbl mem initialCrc buf n t =
     (let s0 = sw_start initialCrc buf n;
          s1 = lead_loop plat tbl mem s0;
          s2 = bulk_loop plat tbl mem s1
      in n \<noteq> 0 \<and>
         (loop_boundary lead_cond (byte_body plat tbl mem) s0 t \<or>
          loop_boundary bulk_cond (bulk_body plat tbl mem) s1 t \<or>
          loop_boundary tail_cond (byte_body plat tbl mem) s2 t))"

text \<open>Two hosts: an x86-64 processor with SSE 4.2, and a big-endian one.\<close>

definition x86_host :: platform where
  "x86_host = \<lparr>target = X86_64, char_signed = True, cpuid_insn = (\<lambda>leaf. (0, 0, 0x100000, 0))\<rparr>"

definition be_host :: platform where
  "be_host = \<lparr>target = Other BigEndian, char_signed = True, cpuid_insn = (\<lambda>leaf. (0, 0, 0, 0))\<rparr>"

section \<open>The table that initCrcTable builds\<close>

lemma ucast_u32_u64_u32: "(ucast (ucast (x :: u32) :: u64) :: u32) = x"
  by (rule bit_eqI) (auto simp: bit_simps)

lemma table_ok_set: "table_ok t \<Longrightarrow> table_ok (table_set t j i v)"
  by (cases "j < 8") (auto simp: table_ok_def table_set_def list_all_length nth_list_update)

lemma table_get_set: "table_ok t \<Longrightarrow> j < 8 \<Longrightarrow> i < 256 \<Longrightarrow>
  table_get (table_set t j i v) j' i' = (if j' = j \<and> i' = i then v else table_get t j' i')"
  by (auto simp: table_ok_def table_set_def table_get_def list_all_length nth_list_update)

lemma init_row0_eq: "init_row0 i t = table_set t 0 i (crc_byte (of_nat i))"
  by (simp add: init_row0_def crc_byte_def Let_def)

lemma row0_loop:
  assumes "table_ok t" "n \<le> 256"
  shows "table_ok (fold init_row0 [0..<n] t) \<and>
         (\<forall>j i. table_get (fold init_row0 [0..<n] t) j i =
            (if j = 0 \<and> i < n then crc_byte (of_nat i) else table_get t j i))"
  using assms(2)
proof (induction n)
  case 0
  then show ?case using assms(1) by simp
next
  case (Suc n)
  then show ?case
    by (auto simp: init_row0_eq table_ok_set table_get_set)
qed

lemma derive_entry_eq:
  "derive_entry i j (c, t) = (next_slice t c, table_set t j i (next_slice t c))"
  by (simp add: derive_entry_def next_slice_def Let_def)

lemma next_slice_cong:
  "(\<And>k. table_get t' 0 k = table_get t 0 k) \<Longrightarrow> next_slice t' c = next_slice t c"
  by (simp add: next_slice_def)

lemma column_loop:
  assumes "table_ok t" "i < 256" "m \<le> 7"
  shows "fst (fold (derive_entry i) [1..<Suc m] (c0, t)) = (next_slice t ^^ m) c0 \<and>
         table_ok (snd (fold (derive_entry i) [1..<Suc m] (c0, t))) \<and>
         (\<forall>j' i'. table_get (snd (fold (derive_entry i) [1..<Suc m] (c0, t))) j' i' =
            (if 1 \<le> j' \<and> j' \<le> m \<and> i' = i then (next_slice t ^^ j') c0 else table_get t j' i'))"
  using assms(3)
proof (induction m)
  case 0
  then show ?case using assms(1) by simp
next
  case (Suc m)
  define r where "r = fold (derive_entry i) [1..<Suc m] (c0, t)"
  have IH: "fst r = (next_slice t ^^ m) c0" "table_ok (snd r)"
    "\<And>j' i'. table_get (snd r) j' i' =
       (if 1 \<le> j' \<and> j' \<le> m \<and> i' = i then (next_slice t ^^ j') c0 else table_get t j' i')"
    using Suc by (simp_all add: r_def)
  have ns: "next_slice (snd r) c = next_slice t c" for c
    by (rule next_slice_cong) (simp add: IH(3))
  have step: "fold (derive_entry i) [1..<Suc (Suc m)] (c0, t) = derive_entry i (Suc m) (fst r, snd r)"
    by (simp add: r_def)
  have v: "next_slice t (fst r) = (next_slice t ^^ Suc m) c0"
    by (simp add: IH(1))
  show ?case
    unfolding step derive_entry_eq ns v
    using IH(2) Suc.prems assms(2)
    by (auto simp: table_ok_set table_get_set IH(3) le_Suc_eq)
qed

lemma init_column_props:
  assumes "table_ok t" "i < 256"
  shows "table_ok (init_column i t) \<and>
         (\<forall>j' i'. table_get (init_column i t) j' i' =
            (if 1 \<le> j' \<and> j' < 8 \<and> i' = i then (next_slice t ^^ j') (table_get t 0 i)
             else table_get t j' i'))"
proof -
  have "[1..<8] = [1..<Suc 7]" by simp
  then show ?thesis
    using column_loop [OF assms, of 7 "table_get t 0 i"]
    by (auto simp: init_column_def simp del: upt_Suc)
qed

lemma columns_loop:
  assumes "table_ok t" "n \<le> 256"
  shows "table_ok (fold init_column [0..<n] t) \<and>
         (\<forall>j' i'. table_get (fold init_column [0..<n] t) j' i' =
            (if 1 \<le> j' \<and> j' < 8 \<and> i' < n then (next_slice t ^^ j') (table_get t 0 i')
             else table_get t j' i'))"
  using assms(2)
proof (induction n)
  case 0
  then show ?case using assms(1) by simp
next
  case (Suc n)
  define r where "r = fold init_column [0..<n] t"
  have IH: "table_ok r"
    "\<And>j' i'. table_get r j' i' =
       (if 1 \<le> j' \<and> j' < 8 \<and> i' < n then (next_slice t ^^ j') (table_get t 0 i')
        else table_get t j' i')"
    using Suc by (simp_all add: r_def)
  have ns: "next_slice r = next_slice t"
    by (rule ext, rule next_slice_cong) (simp add: IH(2))
  have step: "fold init_column [0..<Suc n] t = init_column n r"
    by (simp add: r_def)
  have n: "n < 256" using Suc.prems by simp
  show ?case
    unfolding step
    using init_column_props [OF IH(1) n]
    by (auto simp: ns IH(2) less_Suc_eq)
qed

lemma table_ok_static: "table_ok crc32cTable_static"
  by (simp add: table_ok_def crc32cTable_static_def list_all_length)

lemma unat_low_byte: "unat ((c :: 'a::len word) AND 0xff) < 256"
proof -
  have "c AND 0xff = take_bit 8 c"
    using take_bit_eq_mask [of 8 c] by (simp add: mask_eq_exp_minus_1)
  moreover have "take_bit 8 (unat c) < 2 ^ 8"
    by (rule take_bit_nat_less_exp)
  ultimately show ?thesis
    by (simp add: unsigned_take_bit_eq)
qed

lemma initCrcTable_props:
  assumes "table_ok t"
  shows "table_ok (initCrcTable t)"
    and "i < 256 \<Longrightarrow> table_get (initCrcTable t) 0 i = crc_byte (of_nat i)"
    and "i < 256 \<Longrightarrow> j < 8 \<Longrightarrow> table_get (initCrcTable t) j i = (slice_step ^^ j) (crc_byte (of_nat i))"
proof -
  define t1 where "t1 = fold init_row0 [0..<256] t"
  have t1: "table_ok t1"
    "\<And>j i. table_get t1 j i = (if j = 0 \<and> i < 256 then crc_byte (of_nat i) else table_get t j i)"
    using row0_loop [OF assms, of 256] by (simp_all add: t1_def)
  have T: "initCrcTable t = fold init_column [0..<256] t1"
    by (simp add: initCrcTable_def t1_def)
  have ns: "next_slice t1 = slice_step"
    by (rule ext) (simp add: next_slice_def slice_step_def t1(2) unat_low_byte)
  note cl = columns_loop [OF t1(1), of 256, simplified, folded T]
  show "table_ok (initCrcTable t)" using cl by simp
  show r0: "i < 256 \<Longrightarrow> table_get (initCrcTable t) 0 i = crc_byte (of_nat i)"
    using cl by (simp add: t1(2))
  show "i < 256 \<Longrightarrow> j < 8 \<Longrightarrow> table_get (initCrcTable t) j i = (slice_step ^^ j) (crc_byte (of_nat i))"
    using cl by (cases "j = 0") (simp_all add: t1(2) ns)
qed

section \<open>The byte step is linear over XOR\<close>

lemma shift_xor_alt:
  "shift_xor c = (if odd c then drop_bit 1 c XOR CRC32C_POLYNOMIAL else drop_bit 1 c)"
  by (simp add: shift_xor_def and_one_eq odd_iff_mod_2_eq_one)

lemma shift_xor_xor: "shift_xor (a XOR b) = shift_xor a XOR shift_xor b"
  by (simp add: shift_xor_alt even_xor_iff ac_simps)

lemma shift_xor_0: "shift_xor 0 = 0"
  by (simp add: shift_xor_def)

lemma crc_byte_xor: "crc_byte (a XOR b) = crc_byte a XOR crc_byte b"
  by (simp add: crc_byte_def shift_xor_xor)

lemma crc_byte_0: "crc_byte 0 = 0"
  by (simp add: crc_byte_def shift_xor_0)

lemma and_xor_distrib: "((a :: 'a::len word) XOR b) AND m = (a AND m) XOR (b AND m)"
  by (rule bit_eqI) (auto simp: bit_simps)

lemma fold64_xor: "fold64 (x XOR y) = fold64 x XOR fold64 y"
  by (simp add: fold64_def and_xor_distrib unsigned_xor_eq crc_byte_xor ac_simps)

lemma fold64_0: "fold64 0 = 0"
  by (simp add: fold64_def crc_byte_0)

lemma low_byte_take_bit: "(x :: 'a::len word) AND 0xff = take_bit 8 x"
  using take_bit_eq_mask [of 8 x] by (simp add: mask_eq_exp_minus_1)

lemma bit_below: "take_bit k (x :: 'a::len word) = x \<Longrightarrow> bit x n \<Longrightarrow> n < k"
  by (metis bit_take_bit_iff)

lemma take_bit_widen:
  assumes "take_bit k (x :: 'a::len word) = x" "k \<le> m"
  shows "take_bit m x = x"
proof (rule bit_eqI)
  fix n
  show "bit (take_bit m x) n = bit x n"
    using bit_below [OF assms(1), of n] assms(2) by (auto simp: bit_simps)
qed

lemma drop_push_8: 
  assumes "take_bit 56 (x :: u64) = x" 
  shows "drop_bit 8 (push_bit 8 x) = x"
proof (rule bit_eqI)
  fix n
  show "bit (drop_bit 8 (push_bit 8 x)) n = bit x n"
    using bit_below [OF assms, of n] by (auto simp: bit_simps)
qed

lemma fold64_push: "take_bit 56 x = x \<Longrightarrow> fold64 (push_bit 8 x) = x"
  by (simp add: fold64_def low_byte_take_bit take_bit_push_bit crc_byte_0 drop_push_8)

lemma bit_ucast_byte: "bit (ucast (b :: u8) :: u64) n \<Longrightarrow> n < 8"
  using bit_imp_le_length [of b n] by (simp add: bit_ucast_iff)

lemma bit_push_8: "bit (push_bit 8 (w :: u64)) n \<Longrightarrow> 8 \<le> n"
  by (simp add: bit_push_bit_iff)

lemma word_le_Cons_xor: "word_le (b # bs) = ucast b XOR push_bit 8 (word_le bs)"
  unfolding word_le.simps
proof (rule bit_eqI)
  fix n
  show "bit (ucast b OR push_bit 8 (word_le bs)) n = bit (ucast b XOR push_bit 8 (word_le bs)) n"
    using bit_ucast_byte [of b n] bit_push_8 [of "word_le bs" n]
    unfolding bit_or_iff bit_xor_iff by linarith
qed

lemma word_le_bound: "length bs \<le> 8 \<Longrightarrow> take_bit (8 * length bs) (word_le bs) = word_le bs"
proof (induction bs)
  case Nil
  then show ?case by simp
next
  case (Cons b bs)
  then have IH: "take_bit (8 * length bs) (word_le bs) = word_le bs" by simp
  show ?case
    unfolding word_le.simps
  proof (rule bit_eqI)
    fix n
    have a: "bit (ucast b :: u64) n \<Longrightarrow> n < 8 * length (b # bs)"
      using bit_ucast_byte [of b n] by simp
    have "bit (word_le bs) (n - 8) \<Longrightarrow> n - 8 < 8 * length bs"
      by (rule bit_below [OF IH])
    then have c: "bit (push_bit 8 (word_le bs)) n \<Longrightarrow> n < 8 * length (b # bs)"
      by (auto simp: bit_push_bit_iff)
    show "bit (take_bit (8 * length (b # bs)) (ucast b OR push_bit 8 (word_le bs))) n =
          bit (ucast b OR push_bit 8 (word_le bs)) n"
      using a c unfolding bit_take_bit_iff bit_or_iff by blast
  qed
qed

lemma bytes_fold64:
  "length bs \<le> 8 \<Longrightarrow>
   fold (\<lambda>b c. fold64 (c XOR ucast b)) bs c = (fold64 ^^ length bs) (c XOR word_le bs)"
proof (induction bs arbitrary: c)
  case Nil
  then show ?case by simp
next
  case (Cons b bs)
  have len: "length bs \<le> 8" "length bs \<le> 7" using Cons.prems by simp_all
  have "take_bit (8 * length bs) (word_le bs) = word_le bs"
    by (rule word_le_bound [OF len(1)])
  moreover have "8 * length bs \<le> 56" using len(2) by simp
  ultimately have "take_bit 56 (word_le bs) = word_le bs"
    by (rule take_bit_widen)
  then have p: "fold64 (push_bit 8 (word_le bs)) = word_le bs"
    by (rule fold64_push)
  have "fold64 (c XOR word_le (b # bs)) = fold64 ((c XOR ucast b) XOR push_bit 8 (word_le bs))"
    by (simp only: word_le_Cons_xor xor.assoc)
  also have "\<dots> = fold64 (c XOR ucast b) XOR word_le bs"
    by (simp only: fold64_xor p)
  finally have q: "fold64 (c XOR ucast b) XOR word_le bs = fold64 (c XOR word_le (b # bs))" 
    by (rule sym)
  have "fold (\<lambda>b c. fold64 (c XOR ucast b)) (b # bs) c
        = (fold64 ^^ length bs) (fold64 (c XOR ucast b) XOR word_le bs)"
    using Cons.IH [OF len(1)] by simp
  also have "\<dots> = (fold64 ^^ length bs) (fold64 (c XOR word_le (b # bs)))"
    by (simp only: q)
  also have "\<dots> = (fold64 ^^ length (b # bs)) (c XOR word_le (b # bs))"
    by (simp add: funpow_swap1 del: word_le.simps)
  finally show ?case .
qed

section \<open>Eight byte steps as one table lookup per byte\<close>

lemma funpow_fold64_xor: "(fold64 ^^ k) (x XOR y) = (fold64 ^^ k) x XOR (fold64 ^^ k) y"
  by (induction k arbitrary: x y) (simp_all add: fold64_xor funpow_swap1)

lemma ucast_low_byte: "(ucast ((ucast (t :: u32) :: u64) AND 0xff) :: u32) = t AND 0xff"
  unfolding low_byte_take_bit
  by (rule bit_eqI) (auto simp: bit_simps)

lemma drop_bit_ucast_32_64: "drop_bit 8 (ucast (t :: u32) :: u64) = ucast (drop_bit 8 t)"
proof (rule bit_eqI)
  fix n
  show "bit (drop_bit 8 (ucast t :: u64)) n = bit (ucast (drop_bit 8 t) :: u64) n"
    using bit_imp_le_length [of t "8 + n"] by (auto simp: bit_simps)
qed

lemma fold64_ucast: "fold64 (ucast (t :: u32)) = ucast (slice_step t)"
  by (simp add: fold64_def slice_step_def ucast_low_byte drop_bit_ucast_32_64 unsigned_xor_eq)

lemma funpow_fold64_ucast: "(fold64 ^^ k) (ucast (t :: u32)) = ucast ((slice_step ^^ k) t)"
  by (induction k) (simp_all add: fold64_ucast)

lemma funpow_fold64_Suc:
  "(fold64 ^^ Suc k) x = ucast (slice_entry k x) XOR (fold64 ^^ k) (drop_bit 8 x)"
proof -
  have "(fold64 ^^ Suc k) x = (fold64 ^^ k) (fold64 x)"
    by (simp add: funpow_swap1)
  also have "\<dots> = (fold64 ^^ k) (ucast (crc_byte (ucast (x AND 0xff)))) XOR (fold64 ^^ k) (drop_bit 8 x)"
    by (simp only: fold64_def funpow_fold64_xor)
  finally show ?thesis
    by (simp only: funpow_fold64_ucast slice_entry_def)
qed

lemma drop_56_low: "drop_bit 56 (x :: u64) AND 0xff = drop_bit 56 x"
  unfolding low_byte_take_bit
  by (rule bit_eqI) (auto simp: bit_simps dest: bit_imp_le_length)

lemma fold64_8:
  "(fold64 ^^ 8) x =
     ucast (slice_entry 7 (drop_bit 0 x) XOR slice_entry 6 (drop_bit 8 x) XOR slice_entry 5 (drop_bit 16 x)
       XOR slice_entry 4 (drop_bit 24 x) XOR slice_entry 3 (drop_bit 32 x) XOR slice_entry 2 (drop_bit 40 x)
       XOR slice_entry 1 (drop_bit 48 x) XOR slice_entry 0 (drop_bit 56 x))"
proof -
  have z: "drop_bit 64 x = 0" by (rule bit_eqI) (auto simp: bit_simps dest: bit_imp_le_length)
  have s8: "(fold64 ^^ 8) y = ucast (slice_entry 7 y) XOR (fold64 ^^ 7) (drop_bit 8 y)" for y
    using funpow_fold64_Suc [of 7 y] by simp
  have s7: "(fold64 ^^ 7) y = ucast (slice_entry 6 y) XOR (fold64 ^^ 6) (drop_bit 8 y)" for y
    using funpow_fold64_Suc [of 6 y] by simp
  have s6: "(fold64 ^^ 6) y = ucast (slice_entry 5 y) XOR (fold64 ^^ 5) (drop_bit 8 y)" for y
    using funpow_fold64_Suc [of 5 y] by simp
  have s5: "(fold64 ^^ 5) y = ucast (slice_entry 4 y) XOR (fold64 ^^ 4) (drop_bit 8 y)" for y
    using funpow_fold64_Suc [of 4 y] by simp
  have s4: "(fold64 ^^ 4) y = ucast (slice_entry 3 y) XOR (fold64 ^^ 3) (drop_bit 8 y)" for y
    using funpow_fold64_Suc [of 3 y] by simp
  have s3: "(fold64 ^^ 3) y = ucast (slice_entry 2 y) XOR (fold64 ^^ 2) (drop_bit 8 y)" for y
    using funpow_fold64_Suc [of 2 y] by simp
  have s2: "(fold64 ^^ 2) y = ucast (slice_entry 1 y) XOR fold64 (drop_bit 8 y)" for y
    using funpow_fold64_Suc [of "Suc 0" y] by (simp add: numeral_2_eq_2)
  have s1: "fold64 y = ucast (slice_entry 0 y) XOR drop_bit 8 y" for y
    using funpow_fold64_Suc [of 0 y] by simp
  have "(fold64 ^^ 8) x =
     ucast (slice_entry 7 x) XOR ucast (slice_entry 6 (drop_bit 8 x)) XOR ucast (slice_entry 5 (drop_bit 16 x))
       XOR ucast (slice_entry 4 (drop_bit 24 x)) XOR ucast (slice_entry 3 (drop_bit 32 x)) XOR ucast (slice_entry 2 (drop_bit 40 x))
       XOR ucast (slice_entry 1 (drop_bit 48 x)) XOR ucast (slice_entry 0 (drop_bit 56 x))"
    unfolding s8 s7 s6 s5 s4 s3 s2 s1
    by (simp add: z xor.assoc)
  then show ?thesis
    by (simp add: unsigned_xor_eq)
qed

section \<open>The loop bodies of swCrc32c\<close>

declare lead_loop.simps [simp del] bulk_loop.simps [simp del] tail_loop.simps [simp del]

lemma table_ok_crc32cTable: "table_ok crc32cTable"
  unfolding crc32cTable_def by (rule initCrcTable_props(1) [OF table_ok_static])

lemma crc32cTable_slice: 
  assumes "j < 8"
  shows "table_get crc32cTable j (unat ((y :: u64) AND 0xff)) = slice_entry j y"
proof -
  have "table_get crc32cTable j (unat (y AND 0xff))
        = (slice_step ^^ j) (crc_byte (of_nat (unat (y AND 0xff))))"
    unfolding crc32cTable_def
    by (rule initCrcTable_props(3) [OF table_ok_static unat_low_byte assms])
  then show ?thesis by (simp add: slice_entry_def)
qed

lemma crc32cTable_slice_top:
  "table_get crc32cTable 0 (unat (drop_bit 56 (y :: u64))) = slice_entry 0 (drop_bit 56 y)"
  using crc32cTable_slice [of 0 "drop_bit 56 y"] by (simp add: drop_56_low)

lemma char_value_low: "(c XOR char_value plat b) AND 0xff = (c XOR ucast b) AND 0xff"
  unfolding low_byte_take_bit char_value_def
  by (rule bit_eqI) (auto simp: bit_simps)

lemma drop_8_byte: "drop_bit 8 (ucast (b :: u8) :: u64) = 0"
  by (rule bit_eqI) (auto simp: bit_simps dest: bit_imp_le_length)

lemma byte_step_fold64: "byte_step crc32cTable c b = fold64 (c XOR ucast b)"
  using crc32cTable_slice [of 0 "c XOR ucast b"]
  by (simp add: byte_step_def fold64_def slice_entry_def drop_8_byte)

lemma byte_body_crc:
  "byte_body plat tbl mem s =
     \<lparr>next = next s + 1, len = len s - 1, crc = byte_step tbl (crc s) (mem (next s))\<rparr>"
  by (simp add: byte_body_def byte_step_def char_value_low)

lemma bulk_body_crc:
  "bulk_body plat crc32cTable mem s =
     \<lparr>next = next s + 8, len = len s - 8,
      crc = (fold64 ^^ 8) (crc s XOR load_u64 plat mem (next s))\<rparr>"
  by (simp add: bulk_body_def Let_def fold64_8 crc32cTable_slice crc32cTable_slice_top)

lemma bytewise_fold64:
  "bytewise crc32cTable c bs = fold (\<lambda>b c. fold64 (c XOR ucast b)) bs c"
  by (simp add: bytewise_def byte_step_fold64)

lemma bulk_body_le:
  assumes "host_byte_order (target plat) = LittleEndian"
  shows "bulk_body plat crc32cTable mem s =
     \<lparr>next = next s + 8, len = len s - 8,
      crc = bytewise crc32cTable (crc s) (buf_bytes mem (next s) 8)\<rparr>"
proof -
  have "length (buf_bytes mem (next s) 8) = 8" by (simp add: buf_bytes_def)
  then show ?thesis
    using bytes_fold64 [of "buf_bytes mem (next s) 8" "crc s"]
    by (simp add: bulk_body_crc bytewise_fold64 load_u64_def assms)
qed

section \<open>The loops process the buffer byte by byte\<close>

lemma buf_bytes_add:
  "buf_bytes mem p (k + m) = buf_bytes mem p k @ buf_bytes mem (p + of_nat k) m"
proof (induction m)
  case 0
  then show ?case by (simp add: buf_bytes_def)
next
  case (Suc m)
  have "buf_bytes mem p (k + Suc m) = buf_bytes mem p (k + m) @ [mem (p + of_nat (k + m))]"
    by (simp add: buf_bytes_def)
  also have "\<dots> = buf_bytes mem p k @ (buf_bytes mem (p + of_nat k) m @ [mem (p + of_nat k + of_nat m)])"
    by (simp add: Suc add.assoc)
  also have "buf_bytes mem (p + of_nat k) m @ [mem (p + of_nat k + of_nat m)]
             = buf_bytes mem (p + of_nat k) (Suc m)"
    by (simp add: buf_bytes_def)
  finally show ?case .
qed

lemma buf_bytes_8: "buf_bytes mem p 8 = [mem p, mem (p + 1), mem (p + 2), mem (p + 3), mem (p + 4),
    mem (p + 5), mem (p + 6), mem (p + 7)]"
proof -
  have "[0..<8] = [0, 1, 2, 3, 4, 5, 6, 7 :: nat]" by code_simp
  then show ?thesis by (simp add: buf_bytes_def)
qed

lemma buf_bytes_9: "buf_bytes mem p 9 = [mem p, mem (p + 1), mem (p + 2), mem (p + 3), mem (p + 4),
    mem (p + 5), mem (p + 6), mem (p + 7), mem (p + 8)]"
proof -
  have "[0..<9] = [0, 1, 2, 3, 4, 5, 6, 7, 8 :: nat]" by code_simp
  then show ?thesis by (simp add: buf_bytes_def)
qed

lemma buf_bytes_2: "buf_bytes mem p 2 = [mem p, mem (p + 1)]"
proof -
  have "[0..<2] = [0, 1 :: nat]" by code_simp
  then show ?thesis by (simp add: buf_bytes_def)
qed

lemma bytewise_append: "bytewise tbl c (xs @ ys) = bytewise tbl (bytewise tbl c xs) ys"
  by (simp add: bytewise_def)

lemma consumed_0: "consumed tbl mem s 0 = s"
  by (simp add: consumed_def buf_bytes_def bytewise_def)

lemma consumed_add: "consumed tbl mem (consumed tbl mem s k) m = consumed tbl mem s (k + m)"
  by (simp add: consumed_def buf_bytes_add bytewise_append ac_simps)

lemma unat_len_consumed:
  assumes "k \<le> unat (len s)"
  shows "unat (len (consumed tbl mem s k)) = unat (len s) - k"
proof -
  have k: "unat (of_nat k :: u64) = k"
    using assms by (rule le_unat_uoi)
  then have "(of_nat k :: u64) \<le> len s"
    using assms by (simp add: word_le_nat_alt)
  then have "unat (len s - of_nat k) = unat (len s) - unat (of_nat k :: u64)"
    by (rule unat_sub)
  then show ?thesis
    by (simp add: consumed_def k)
qed

lemma byte_body_consumed: "byte_body plat tbl mem s = consumed tbl mem s 1"
  by (simp add: byte_body_crc consumed_def buf_bytes_def bytewise_def)

lemma bulk_body_consumed:
  "host_byte_order (target plat) = LittleEndian \<Longrightarrow>
   bulk_body plat crc32cTable mem s = consumed crc32cTable mem s 8"
  by (simp add: bulk_body_le consumed_def)

lemma lead_loop_consumed:
  "\<exists>k\<le>unat (len s). lead_loop plat tbl mem s = consumed tbl mem s k"
proof (induction plat tbl mem s rule: lead_loop.induct)
  case (1 plat tbl mem s)
  show ?case
  proof (cases "lead_cond s")
    case True
    then have l: "1 \<le> unat (len s)"
      by (simp add: lead_cond_def unat_gt_0 Suc_le_eq)
    from 1 [OF True] obtain k where
      k: "k \<le> unat (len (consumed tbl mem s 1))"
        "lead_loop plat tbl mem (consumed tbl mem s 1) = consumed tbl mem (consumed tbl mem s 1) k"
      by (auto simp: byte_body_consumed)
    have "lead_loop plat tbl mem s = consumed tbl mem s (1 + k)"
      using True k(2) by (subst lead_loop.simps) (simp add: byte_body_consumed consumed_add)
    moreover have "1 + k \<le> unat (len s)"
      using k(1) l by (simp add: unat_len_consumed)
    ultimately show ?thesis by blast
  next
    case False
    then have "lead_loop plat tbl mem s = consumed tbl mem s 0"
      by (subst lead_loop.simps) (simp add: consumed_0)
    then show ?thesis by blast
  qed
qed

lemma tail_loop_consumed:
  "tail_loop plat tbl mem s = consumed tbl mem s (unat (len s))"
proof (induction plat tbl mem s rule: tail_loop.induct)
  case (1 plat tbl mem s)
  show ?case
  proof (cases "tail_cond s")
    case True
    then have l: "1 \<le> unat (len s)"
      by (simp add: tail_cond_def unat_gt_0 Suc_le_eq)
    have "tail_loop plat tbl mem s = tail_loop plat tbl mem (consumed tbl mem s 1)"
      using True by (subst tail_loop.simps) (simp add: byte_body_consumed)
    also have "\<dots> = consumed tbl mem (consumed tbl mem s 1) (unat (len (consumed tbl mem s 1)))"
      using 1 [OF True] by (simp add: byte_body_consumed)
    also have "\<dots> = consumed tbl mem s (unat (len s))"
      using l by (simp add: consumed_add unat_len_consumed)
    finally show ?thesis .
  next
    case False
    then show ?thesis
      by (subst tail_loop.simps) (simp add: consumed_0 tail_cond_def)
  qed
qed

lemma bulk_loop_consumed:
  assumes le: "host_byte_order (target plat) = LittleEndian"
  shows "\<exists>k\<le>unat (len s). bulk_loop plat crc32cTable mem s = consumed crc32cTable mem s k"
  using le
proof (induction plat "crc32cTable" mem s rule: bulk_loop.induct)
  case (1 plat mem s)
  note le = "1.prems"
  show ?case
  proof (cases "bulk_cond s")
    case True
    then have l: "8 \<le> unat (len s)"
      by (simp add: bulk_cond_def word_le_nat_alt)
    from "1.hyps" [OF True] le obtain k where
      k: "k \<le> unat (len (consumed crc32cTable mem s 8))"
        "bulk_loop plat crc32cTable mem (consumed crc32cTable mem s 8)
           = consumed crc32cTable mem (consumed crc32cTable mem s 8) k"
      by (auto simp: bulk_body_consumed)
    have "bulk_loop plat crc32cTable mem s = consumed crc32cTable mem s (8 + k)"
      using True k(2) le by (subst bulk_loop.simps) (simp add: bulk_body_consumed consumed_add)
    moreover have "8 + k \<le> unat (len s)"
      using k(1) l by (simp add: unat_len_consumed)
    ultimately show ?thesis by blast
  next
    case False
    then have "bulk_loop plat crc32cTable mem s = consumed crc32cTable mem s 0"
      by (subst bulk_loop.simps) (simp add: consumed_0)
    then show ?thesis by blast
  qed
qed

section \<open>swCrc32c on a little-endian host\<close>

text \<open>
  C3: for every initial CRC \<open>S\<close>, on every target, at every address and whatever the
  table and the memory hold, \<open>swCrc32c\<close> called with length 0 returns \<open>S\<close> itself, with
  no complement applied; with \<open>S = 0\<close> the result is 0.
\<close>

theorem swCrc32c_empty:
  "swCrc32c plat tbl mem S buf 0 = S \<and> swCrc32c plat tbl mem 0 buf 0 = 0"
  by (simp add: swCrc32c_def sw_accumulator_def ucast_u32_u64_u32)

lemma buf_bytes_Nil_iff: "buf_bytes mem buf k = [] \<longleftrightarrow> k = 0"
  by (simp add: buf_bytes_def)

lemma swCrc32c_consumed:
  assumes le: "host_byte_order (target plat) = LittleEndian" and n: "n \<noteq> 0"
  shows "tail_loop plat crc32cTable mem (bulk_loop plat crc32cTable mem
           (lead_loop plat crc32cTable mem \<lparr>next = buf, len = n, crc = c\<rparr>))
         = consumed crc32cTable mem \<lparr>next = buf, len = n, crc = c\<rparr> (unat n)"
proof -
  define s0 where "s0 = \<lparr>next = buf, len = n, crc = c\<rparr>"
  obtain k1 where k1: "k1 \<le> unat (len s0)"
      "lead_loop plat crc32cTable mem s0 = consumed crc32cTable mem s0 k1"
    using lead_loop_consumed by blast
  define s1 where "s1 = consumed crc32cTable mem s0 k1"
  obtain k2 where k2: "k2 \<le> unat (len s1)"
      "bulk_loop plat crc32cTable mem s1 = consumed crc32cTable mem s1 k2"
    using bulk_loop_consumed [OF le] by blast
  define s2 where "s2 = consumed crc32cTable mem s1 k2"
  have l1: "unat (len s1) = unat (len s0) - k1"
    unfolding s1_def by (rule unat_len_consumed [OF k1(1)])
  have l2: "unat (len s2) = unat (len s1) - k2"
    unfolding s2_def by (rule unat_len_consumed [OF k2(1)])
  have l: "k1 + k2 + unat (len s2) = unat (len s0)"
    using k1(1) k2(1) l1 l2 by simp
  have "tail_loop plat crc32cTable mem s2 = consumed crc32cTable mem s2 (unat (len s2))"
    by (rule tail_loop_consumed)
  also have "\<dots> = consumed crc32cTable mem s0 (k1 + k2 + unat (len s2))"
    unfolding s2_def s1_def consumed_add ..
  finally have "tail_loop plat crc32cTable mem s2 = consumed crc32cTable mem s0 (unat (len s0))"
    by (simp only: l)
  moreover have "tail_loop plat crc32cTable mem (bulk_loop plat crc32cTable mem
           (lead_loop plat crc32cTable mem s0)) = tail_loop plat crc32cTable mem s2"
    by (simp only: k1(2) k2(2) s1_def [symmetric] s2_def [symmetric])
  ultimately show ?thesis
    by (simp add: s0_def)
qed

lemma swCrc32c_bytewise:
  assumes le: "host_byte_order (target plat) = LittleEndian"
  shows "swCrc32c plat crc32cTable mem S buf n
         = crc32c_bytes crc32cTable S (buf_bytes mem buf (unat n))"
proof (cases "n = 0")
  case True
  then show ?thesis
    by (simp add: swCrc32c_def sw_accumulator_def crc32c_bytes_def buf_bytes_def ucast_u32_u64_u32)
next
  case False
  then have "unat n \<noteq> 0" by (simp add: unat_eq_0)
  then show ?thesis
    using False swCrc32c_consumed [OF le False, of mem buf]
    by (simp add: swCrc32c_def sw_accumulator_def crc32c_bytes_def buf_bytes_Nil_iff Let_def consumed_def)
qed

section \<open>Evaluation on numerals\<close>

lemma shift_xor_numeral:
  "shift_xor (numeral k) =
     (if (numeral k :: u32) AND 1 \<noteq> 0 then drop_bit 1 (numeral k) XOR 0x82f63b78
      else drop_bit 1 (numeral k))"
  by (simp only: shift_xor_def CRC32C_POLYNOMIAL_def)

lemma shift_xor_1: "shift_xor 1 = 0x82f63b78"
  by (simp add: shift_xor_def CRC32C_POLYNOMIAL_def)

lemma fold64_numeral: "fold64 (numeral k) = 
   ucast (crc_byte (ucast ((numeral k :: u64) AND 0xff))) XOR drop_bit 8 (numeral k)"
  by (simp only: fold64_def)

lemma fold64_1: "fold64 1 = ucast (crc_byte 1)"
  by (simp add: fold64_def)

lemmas crc_eval = shift_xor_numeral shift_xor_0 shift_xor_1 fold64_numeral fold64_0 fold64_1 crc_byte_def

section \<open>The accumulator stays within 32 bits\<close>

lemma swCrc32c_accumulator:
  "swCrc32c plat tbl mem S buf n = ucast (sw_accumulator plat tbl mem S buf n)"
  by (simp add: swCrc32c_def)

lemma fits32_take_bit: "fits32 x \<longleftrightarrow> take_bit 32 x = x"
  using mask_eq_iff_w2p [of 32 x] by (simp add: fits32_def take_bit_eq_mask word_size)

lemma fits32_ucast: "fits32 (ucast (x :: u32))"
  unfolding fits32_take_bit by (rule bit_eqI) (auto simp: bit_simps dest: bit_imp_le_length)

lemma fits32_xor: "fits32 x \<Longrightarrow> fits32 y \<Longrightarrow> fits32 (x XOR y)"
  by (simp add: fits32_take_bit)

lemma fits32_drop: "fits32 x \<Longrightarrow> fits32 (drop_bit 8 x)"
  unfolding fits32_take_bit
proof -
  assume a: "take_bit 32 x = x"
  show "take_bit 32 (drop_bit 8 x) = drop_bit 8 x"
  proof (rule bit_eqI)
    fix n
    show "bit (take_bit 32 (drop_bit 8 x)) n = bit (drop_bit 8 x) n"
      using bit_below [OF a, of "8 + n"] by (auto simp: bit_simps)
  qed
qed

lemma fits32_ones: "fits32 0xFFFFFFFF"
  by (simp add: fits32_def)

lemma fits32_byte_body: "fits32 (crc s) \<Longrightarrow> fits32 (crc (byte_body plat tbl mem s))"
  by (simp add: byte_body_def fits32_xor fits32_ucast fits32_drop)

lemma fits32_bulk_body: "fits32 (crc (bulk_body plat tbl mem s))"
  by (simp add: bulk_body_def Let_def fits32_ucast)

lemma boundary_byte: 
  "loop_boundary c (byte_body plat tbl mem) s t \<Longrightarrow> fits32 (crc s) \<Longrightarrow> fits32 (crc t)"
  by (induction rule: loop_boundary.induct) (simp_all add: fits32_byte_body)

lemma boundary_bulk: 
  "loop_boundary c (bulk_body plat tbl mem) s t \<Longrightarrow> fits32 (crc s) \<Longrightarrow> fits32 (crc t)"
  by (induction rule: loop_boundary.induct) (simp_all add: fits32_bulk_body)

lemma loop_boundary_trans:
  "loop_boundary c b t u \<Longrightarrow> loop_boundary c b s t \<Longrightarrow> loop_boundary c b s u"
  by (induction rule: loop_boundary.induct) (auto intro: loop_boundary.intros)

lemma lead_loop_boundary:
  "loop_boundary lead_cond (byte_body plat tbl mem) s (lead_loop plat tbl mem s) \<and>
   \<not> lead_cond (lead_loop plat tbl mem s)"
proof (induction plat tbl mem s rule: lead_loop.induct)
  case (1 plat tbl mem s)
  show ?case
  proof (cases "lead_cond s")
    case True
    have e: "lead_loop plat tbl mem s = lead_loop plat tbl mem (byte_body plat tbl mem s)"
      using True by (subst lead_loop.simps) simp
    have "loop_boundary lead_cond (byte_body plat tbl mem) s (byte_body plat tbl mem s)"
      using True by (intro loop_boundary.iter loop_boundary.entry)
    with 1 [OF True] show ?thesis
      unfolding e by (blast intro: loop_boundary_trans)
  next
    case False
    then have "lead_loop plat tbl mem s = s" by (subst lead_loop.simps) simp
    with False show ?thesis by (simp add: loop_boundary.entry)
  qed
qed

lemma bulk_loop_boundary:
  "loop_boundary bulk_cond (bulk_body plat tbl mem) s (bulk_loop plat tbl mem s) \<and>
   \<not> bulk_cond (bulk_loop plat tbl mem s)"
proof (induction plat tbl mem s rule: bulk_loop.induct)
  case (1 plat tbl mem s)
  show ?case
  proof (cases "bulk_cond s")
    case True
    have e: "bulk_loop plat tbl mem s = bulk_loop plat tbl mem (bulk_body plat tbl mem s)"
      using True by (subst bulk_loop.simps) simp
    have "loop_boundary bulk_cond (bulk_body plat tbl mem) s (bulk_body plat tbl mem s)"
      using True by (intro loop_boundary.iter loop_boundary.entry)
    with 1 [OF True] show ?thesis
      unfolding e by (blast intro: loop_boundary_trans)
  next
    case False
    then have "bulk_loop plat tbl mem s = s" by (subst bulk_loop.simps) simp
    with False show ?thesis by (simp add: loop_boundary.entry)
  qed
qed

lemma tail_loop_boundary:
  "loop_boundary tail_cond (byte_body plat tbl mem) s (tail_loop plat tbl mem s) \<and>
   \<not> tail_cond (tail_loop plat tbl mem s)"
proof (induction plat tbl mem s rule: tail_loop.induct)
  case (1 plat tbl mem s)
  show ?case
  proof (cases "tail_cond s")
    case True
    have e: "tail_loop plat tbl mem s = tail_loop plat tbl mem (byte_body plat tbl mem s)"
      using True by (subst tail_loop.simps) simp
    have "loop_boundary tail_cond (byte_body plat tbl mem) s (byte_body plat tbl mem s)"
      using True by (intro loop_boundary.iter loop_boundary.entry)
    with 1 [OF True] show ?thesis
      unfolding e by (blast intro: loop_boundary_trans)
  next
    case False
    then have "tail_loop plat tbl mem s = s" by (subst tail_loop.simps) simp
    with False show ?thesis by (simp add: loop_boundary.entry)
  qed
qed

lemma fits32_start: "fits32 (crc (sw_start S buf n))"
  by (simp add: sw_start_def fits32_xor fits32_ucast fits32_ones)

lemma fits32_stages:
  "fits32 (crc (lead_loop plat tbl mem (sw_start S buf n)))"
  "fits32 (crc (bulk_loop plat tbl mem (lead_loop plat tbl mem (sw_start S buf n))))"
  "fits32 (crc (tail_loop plat tbl mem (bulk_loop plat tbl mem (lead_loop plat tbl mem (sw_start S buf n)))))"
proof -
  show a: "fits32 (crc (lead_loop plat tbl mem (sw_start S buf n)))"
    using lead_loop_boundary fits32_start by (blast intro: boundary_byte)
  show b: "fits32 (crc (bulk_loop plat tbl mem (lead_loop plat tbl mem (sw_start S buf n))))"
    using bulk_loop_boundary a by (blast intro: boundary_bulk)
  show "fits32 (crc (tail_loop plat tbl mem (bulk_loop plat tbl mem (lead_loop plat tbl mem (sw_start S buf n)))))"
    using tail_loop_boundary b by (blast intro: boundary_byte)
qed

lemma fits32_accumulator: "fits32 (sw_accumulator plat tbl mem S buf n)"
  using fits32_stages(3) [of plat tbl mem S buf n]
  by (simp add: sw_accumulator_def Let_def fits32_ucast fits32_xor fits32_ones sw_start_def)

lemma ucast_fits32: "fits32 x \<Longrightarrow> (ucast (ucast x :: u32) :: u64) = x"
  unfolding fits32_take_bit
proof -
  assume a: "take_bit 32 x = x"
  show "(ucast (ucast x :: u32) :: u64) = x"
  proof (rule bit_eqI)
    fix n
    show "bit (ucast (ucast x :: u32) :: u64) n = bit x n"
      using bit_below [OF a, of n] by (auto simp: bit_simps)
  qed
qed

lemma sw_boundary_exits:
  assumes "n \<noteq> 0"
  shows "sw_boundary plat tbl mem S buf n (sw_start S buf n)"
    and "sw_boundary plat tbl mem S buf n (lead_loop plat tbl mem (sw_start S buf n))"
    and "sw_boundary plat tbl mem S buf n
           (bulk_loop plat tbl mem (lead_loop plat tbl mem (sw_start S buf n)))"
    and "sw_boundary plat tbl mem S buf n
           (tail_loop plat tbl mem (bulk_loop plat tbl mem (lead_loop plat tbl mem (sw_start S buf n))))"
  using assms lead_loop_boundary bulk_loop_boundary tail_loop_boundary
  by (simp_all add: sw_boundary_def Let_def loop_boundary.entry)

text \<open>
  C9: for every 32-bit initial CRC, on every target and with any table, the 64-bit
  accumulator is below \<open>2 ^ 32\<close> at every iteration boundary of the leading, the bulk and
  the trailing loop (the entry and the exit of each loop are among them), and the value
  returned, read back as a 64-bit number, is the whole accumulator: the cast to
  \<^verbatim>\<open>uint32_t\<close> drops nothing.
\<close>

theorem swCrc32c_accumulator_fits:
  "(sw_boundary plat tbl mem S buf n t \<longrightarrow> crc t < 2 ^ 32) \<and>
   (ucast (swCrc32c plat tbl mem S buf n) :: u64) = sw_accumulator plat tbl mem S buf n"
proof
  show "sw_boundary plat tbl mem S buf n t \<longrightarrow> crc t < 2 ^ 32"
    using fits32_start [of S buf n] fits32_stages(1,2) [of plat tbl mem S buf n]
    unfolding sw_boundary_def Let_def fits32_def [symmetric]
    by (blast intro: boundary_byte boundary_bulk)
  show "(ucast (swCrc32c plat tbl mem S buf n) :: u64) = sw_accumulator plat tbl mem S buf n"
    unfolding swCrc32c_accumulator by (rule ucast_fits32 [OF fits32_accumulator])
qed

theorem swCrc32c_accumulator_fits_witness:
  "sw_boundary x86_host crc32cTable (\<lambda>a. ucast (a + 0x29)) 0 8 9 (sw_start 0 8 9) \<and>
   crc (sw_start 0 8 9) < 2 ^ 32"
proof -
  have h: "sw_boundary x86_host crc32cTable (\<lambda>a. ucast (a + 0x29)) 0 8 9 (sw_start 0 8 9)"
    by (simp add: sw_boundary_def Let_def loop_boundary.entry)
  show ?thesis
    using h swCrc32c_accumulator_fits [of x86_host crc32cTable "\<lambda>a. ucast (a + 0x29)" 0 8 9 "sw_start 0 8 9"]
    by blast
qed

section \<open>Signedness of char, chaining, alignment and the check value\<close>

lemma byte_body_plat: "byte_body plat tbl mem s = byte_body plat' tbl mem s"
  by (simp add: byte_body_crc)

lemma bulk_body_plat:
  "target plat = target plat' \<Longrightarrow> bulk_body plat tbl mem s = bulk_body plat' tbl mem s"
  by (simp add: bulk_body_def load_u64_def)

lemma lead_loop_plat: "lead_loop plat tbl mem s = lead_loop plat' tbl mem s"
proof (induction plat tbl mem s rule: lead_loop.induct)
  case (1 plat tbl mem s)
  show ?case
  proof (cases "lead_cond s")
    case True
    then show ?thesis
      using 1 [OF True] 
      by (subst lead_loop.simps, subst (2) lead_loop.simps) (simp add: byte_body_plat [of plat _ _ _ plat'])
  next
    case False
    then show ?thesis
      by (subst lead_loop.simps, subst (2) lead_loop.simps) simp
  qed
qed

lemma tail_loop_plat: "tail_loop plat tbl mem s = tail_loop plat' tbl mem s"
proof (induction plat tbl mem s rule: tail_loop.induct)
  case (1 plat tbl mem s)
  show ?case
  proof (cases "tail_cond s")
    case True
    then show ?thesis
      using 1 [OF True] 
      by (subst tail_loop.simps, subst (2) tail_loop.simps) (simp add: byte_body_plat [of plat _ _ _ plat'])
  next
    case False
    then show ?thesis
      by (subst tail_loop.simps, subst (2) tail_loop.simps) simp
  qed
qed

lemma bulk_loop_plat:
  "target plat = target plat' \<Longrightarrow> bulk_loop plat tbl mem s = bulk_loop plat' tbl mem s"
proof (induction plat tbl mem s rule: bulk_loop.induct)
  case (1 plat tbl mem s)
  show ?case
  proof (cases "bulk_cond s")
    case True
    then show ?thesis
      using 1(1) [OF True "1.prems"] 
      by (subst bulk_loop.simps, subst (2) bulk_loop.simps) (simp add: bulk_body_plat [OF "1.prems"])
  next
    case False
    then show ?thesis
      by (subst bulk_loop.simps, subst (2) bulk_loop.simps) simp
  qed
qed

text \<open>Where \<^verbatim>\<open>char\<close> is signed the byte \<open>0x80\<close> reaches the XOR sign-extended.\<close>

lemma char_value_sign_extends:
  "char_value (plat\<lparr>char_signed := True\<rparr>) 0x80 = 0xFFFFFFFFFFFFFF80 \<and>
   char_value (plat\<lparr>char_signed := False\<rparr>) 0x80 = 0x80"
  by (simp add: char_value_def)

text \<open>
  C10: for every initial CRC, buffer, table and target, \<open>swCrc32c\<close> returns the same value
  where \<^verbatim>\<open>char\<close> is signed, so that a byte of \<open>0x80\<close> or more is sign-extended before the
  XOR, as where the bytes are read unsigned: the mask \<^verbatim>\<open>& 0xff\<close> removes the extension
  and the accumulator itself is never XORed with the byte.
\<close>

theorem swCrc32c_char_signedness:
  "swCrc32c (plat\<lparr>char_signed := True\<rparr>) tbl mem S buf n
   = swCrc32c (plat\<lparr>char_signed := False\<rparr>) tbl mem S buf n"
proof -
  have t: "target (plat\<lparr>char_signed := True\<rparr>) = target (plat\<lparr>char_signed := False\<rparr>)"
    by simp
  show ?thesis
    unfolding swCrc32c_def sw_accumulator_def Let_def
    by (simp only: lead_loop_plat [of "plat\<lparr>char_signed := True\<rparr>" _ _ _ "plat\<lparr>char_signed := False\<rparr>"]
         tail_loop_plat [of "plat\<lparr>char_signed := True\<rparr>" _ _ _ "plat\<lparr>char_signed := False\<rparr>"]
         bulk_loop_plat [OF t])
qed

lemma fits32_byte_step: "fits32 c \<Longrightarrow> fits32 (byte_step tbl c b)"
  by (simp add: byte_step_def fits32_xor fits32_ucast fits32_drop)

lemma fits32_bytewise: "fits32 c \<Longrightarrow> fits32 (bytewise tbl c bs)"
  unfolding bytewise_def
  by (induction bs arbitrary: c) (simp_all add: fits32_byte_step)

lemma xor_ones_twice: "(x XOR 0xFFFFFFFF) XOR 0xFFFFFFFF = (x :: u64)"
  by (simp add: xor.assoc)

lemma crc32c_bytes_append:
  "crc32c_bytes tbl S (A @ B) = crc32c_bytes tbl (crc32c_bytes tbl S A) B"
proof (cases "A = [] \<or> B = []")
  case True
  then show ?thesis by (auto simp: crc32c_bytes_def)
next
  case False
  define x where "x = bytewise tbl (ucast S XOR 0xFFFFFFFF) A"
  have "fits32 x"
    unfolding x_def by (intro fits32_bytewise fits32_xor fits32_ucast fits32_ones)
  then have "fits32 (x XOR 0xFFFFFFFF)"
    by (intro fits32_xor fits32_ones)
  then have "(ucast (ucast (x XOR 0xFFFFFFFF) :: u32) :: u64) XOR 0xFFFFFFFF = x"
    by (simp only: ucast_fits32 xor_ones_twice)
  then show ?thesis
    using False by (simp add: crc32c_bytes_def bytewise_append x_def [symmetric])
qed

text \<open>
  Chaining on a little-endian host: for buffers holding \<open>A\<close>, \<open>B\<close> and \<open>A @ B\<close> at any
  addresses, the CRC of \<open>A @ B\<close> from a seed equals the CRC of \<open>B\<close> seeded with the CRC of
  \<open>A\<close> from that seed.
\<close>

lemma swCrc32c_chaining:
  assumes "host_byte_order (target plat) = LittleEndian"
    and "buf_bytes memA pA (unat nA) = A"
    and "buf_bytes memB pB (unat nB) = B"
    and "buf_bytes memAB pAB (unat nAB) = A @ B"
  shows "swCrc32c plat crc32cTable memAB S pAB nAB
         = swCrc32c plat crc32cTable memB (swCrc32c plat crc32cTable memA S pA nA) pB nB"
  by (simp only: swCrc32c_bytewise [OF assms(1)] assms(2-4) crc32c_bytes_append)

lemma swCrc32c_chaining_witness:
  "host_byte_order (target x86_host) = LittleEndian \<and>
   buf_bytes (\<lambda>a. ucast a) 0 (unat (1 :: u64)) = [0] \<and>
   buf_bytes (\<lambda>a. ucast a) 1 (unat (1 :: u64)) = [1] \<and>
   buf_bytes (\<lambda>a. ucast a) 0 (unat (2 :: u64)) = [0] @ [1] \<and>
   swCrc32c x86_host crc32cTable (\<lambda>a. ucast a) 0 0 2
     = swCrc32c x86_host crc32cTable (\<lambda>a. ucast a)
         (swCrc32c x86_host crc32cTable (\<lambda>a. ucast a) 0 0 1) 1 1"
proof -
  have h1: "host_byte_order (target x86_host) = LittleEndian"
    by (simp add: x86_host_def)
  have h2: "buf_bytes (\<lambda>a. ucast a) 0 (unat (1 :: u64)) = [0]"
    by (simp add: buf_bytes_def)
  have h3: "buf_bytes (\<lambda>a. ucast a) 1 (unat (1 :: u64)) = [1]"
    by (simp add: buf_bytes_def)
  have h4: "buf_bytes (\<lambda>a. ucast a) 0 (unat (2 :: u64)) = [0] @ [1]"
    by (simp add: buf_bytes_2)
  show ?thesis
    using h1 h2 h3 h4 swCrc32c_chaining [OF h1 h2 h3 h4] by blast
qed

text \<open>
  Alignment on a little-endian host: two buffers that hold the same bytes give the same
  checksum from the same initial CRC, whatever their addresses.
\<close>

lemma swCrc32c_alignment:
  assumes "host_byte_order (target plat) = LittleEndian"
    and "buf_bytes mem1 p1 (unat n) = buf_bytes mem2 p2 (unat n)"
  shows "swCrc32c plat crc32cTable mem1 S p1 n = swCrc32c plat crc32cTable mem2 S p2 n"
  by (simp only: swCrc32c_bytewise [OF assms(1)] assms(2))

lemma swCrc32c_alignment_witness:
  "host_byte_order (target x86_host) = LittleEndian \<and>
   buf_bytes (\<lambda>a. ucast (a AND 3)) 0 (unat (9 :: u64)) = buf_bytes (\<lambda>a. ucast (a AND 3)) 4 (unat (9 :: u64)) \<and>
   swCrc32c x86_host crc32cTable (\<lambda>a. ucast (a AND 3)) 5 0 9
     = swCrc32c x86_host crc32cTable (\<lambda>a. ucast (a AND 3)) 5 4 9"
proof -
  have h1: "host_byte_order (target x86_host) = LittleEndian"
    by (simp add: x86_host_def)
  have h2: "buf_bytes (\<lambda>a. ucast (a AND 3)) 0 (unat (9 :: u64))
            = buf_bytes (\<lambda>a. ucast (a AND 3)) 4 (unat (9 :: u64))"
    by (simp add: buf_bytes_9)
  show ?thesis
    using h1 h2 swCrc32c_alignment [OF h1 h2] by simp
qed

text \<open>
  The check value on a little-endian host: with the table that \<open>initCrcTable\<close> has
  built, the software engine returns \<open>0xE3069283\<close> for the nine ASCII bytes
  \<^verbatim>\<open>123456789\<close> and initial CRC 0, at every address of the buffer.
\<close>

lemma swCrc32c_check_value:
  assumes "host_byte_order (target plat) = LittleEndian"
    and "buf_bytes mem buf 9 = [0x31, 0x32, 0x33, 0x34, 0x35, 0x36, 0x37, 0x38, 0x39]"
  shows "swCrc32c plat crc32cTable mem 0 buf 9 = 0xE3069283"
proof -
  have "swCrc32c plat crc32cTable mem 0 buf 9
        = crc32c_bytes crc32cTable 0 [0x31, 0x32, 0x33, 0x34, 0x35, 0x36, 0x37, 0x38, 0x39]"
    using assms(2) by (simp add: swCrc32c_bytewise [OF assms(1)])
  also have "\<dots> = 0xE3069283"
    by (simp add: crc32c_bytes_def bytewise_fold64 crc_eval)
  finally show ?thesis .
qed

lemma swCrc32c_check_value_witness:
  "host_byte_order (target x86_host) = LittleEndian \<and>
   buf_bytes (\<lambda>a. ucast (a + 0x29)) 8 9 = [0x31, 0x32, 0x33, 0x34, 0x35, 0x36, 0x37, 0x38, 0x39] \<and>
   swCrc32c x86_host crc32cTable (\<lambda>a. ucast (a + 0x29)) 0 8 9 = 0xE3069283"
proof -
  have h1: "host_byte_order (target x86_host) = LittleEndian"
    by (simp add: x86_host_def)
  have h2: "buf_bytes (\<lambda>a. ucast (a + 0x29)) 8 9 = [0x31, 0x32, 0x33, 0x34, 0x35, 0x36, 0x37, 0x38, 0x39]"
    by (simp add: buf_bytes_9)
  show ?thesis
    using h1 h2 swCrc32c_check_value [OF h1 h2] by simp
qed

section \<open>The rows of the table\<close>

lemma spec_bit_step_eq: "spec_bit_step = shift_xor"
  by (rule ext) (simp add: spec_bit_step_def shift_xor_alt CRC32C_POLYNOMIAL_def bit_0)

lemma funpow8: "(f ^^ 8) x = f (f (f (f (f (f (f (f x)))))))"
  by (simp add: eval_nat_numeral)

lemma spec_row0_eq: "spec_row0 i = crc_byte (of_nat i)"
  by (simp only: spec_row0_def spec_bit_step_eq funpow8 crc_byte_def)

lemma funpow_pred: "0 < j \<Longrightarrow> (f ^^ j) x = f ((f ^^ (j - 1)) x)"
  by (cases j) simp_all

text \<open>
  C7: in the table that \<open>initCrcTable\<close> leaves, entry \<open>i\<close> of row 0 is the result of eight
  iterations of the specification's bit step from \<open>i\<close>, and for \<open>j\<close> from 1 to 7 entry \<open>i\<close> of
  row \<open>j\<close> is row 0 at the low byte of entry \<open>i\<close> of row \<open>j - 1\<close>, XORed with that entry
  shifted right by 8 bits.
\<close>

theorem initCrcTable_rows:
  assumes "table_ok t"
  shows "(\<forall>i<256. table_get (initCrcTable t) 0 i = spec_row0 i) \<and>
         (\<forall>j\<in>{1..7}. \<forall>i<256.
            table_get (initCrcTable t) j i =
              table_get (initCrcTable t) 0 (unat (table_get (initCrcTable t) (j - 1) i AND 0xff))
                XOR drop_bit 8 (table_get (initCrcTable t) (j - 1) i))"
proof (intro conjI allI impI ballI)
  fix i :: nat assume "i < 256"
  then show "table_get (initCrcTable t) 0 i = spec_row0 i"
    by (simp add: initCrcTable_props(2) [OF assms] spec_row0_eq)
next
  fix j i :: nat assume j: "j \<in> {1..7}" and i: "i < 256"
  define v where "v = table_get (initCrcTable t) (j - 1) i"
  have j8: "j < 8" "j - 1 < 8" "0 < j" using j by auto
  have v: "v = (slice_step ^^ (j - 1)) (crc_byte (of_nat i))"
    unfolding v_def by (rule initCrcTable_props(3) [OF assms i j8(2)])
  have "table_get (initCrcTable t) j i = slice_step v"
    by (simp only: initCrcTable_props(3) [OF assms i j8(1)] v funpow_pred [OF j8(3)])
  also have "\<dots> = table_get (initCrcTable t) 0 (unat (v AND 0xff)) XOR drop_bit 8 v"
    by (simp add: slice_step_def initCrcTable_props(2) [OF assms unat_low_byte])
  finally show "table_get (initCrcTable t) j i =
              table_get (initCrcTable t) 0 (unat (table_get (initCrcTable t) (j - 1) i AND 0xff))
                XOR drop_bit 8 (table_get (initCrcTable t) (j - 1) i)"
    unfolding v_def .
qed

theorem initCrcTable_rows_witness:
  "table_ok crc32cTable_static \<and> (2::nat) < 256 \<and> (2::nat) \<in> {1..7} \<and>
   table_get (initCrcTable crc32cTable_static) 0 2 = 0xE13B70F7 \<and>
   table_get (initCrcTable crc32cTable_static) 2 2 =
     table_get (initCrcTable crc32cTable_static) 0
         (unat (table_get (initCrcTable crc32cTable_static) (2 - 1) 2 AND 0xff))
       XOR drop_bit 8 (table_get (initCrcTable crc32cTable_static) (2 - 1) 2)"
proof -
  note r = initCrcTable_rows [OF table_ok_static]
  have i: "(2::nat) < 256" and j: "(2::nat) \<in> {1..7}" by simp_all
  have a: "table_get (initCrcTable crc32cTable_static) 0 2 = spec_row0 2"
    using r i by blast
  have b: "spec_row0 2 = 0xE13B70F7"
    by (simp add: spec_row0_eq crc_eval)
  have c: "table_get (initCrcTable crc32cTable_static) 2 2 =
     table_get (initCrcTable crc32cTable_static) 0
         (unat (table_get (initCrcTable crc32cTable_static) (2 - 1) 2 AND 0xff))
       XOR drop_bit 8 (table_get (initCrcTable crc32cTable_static) (2 - 1) 2)"
    using r i j by blast
  from a b have a': "table_get (initCrcTable crc32cTable_static) 0 2 = 0xE13B70F7"
    by (rule trans)
  show ?thesis
    by (intro conjI table_ok_static i j a' c)
qed

section \<open>Dispatch and the hardware engine\<close>

text \<open>
  C8: a call with a boolean flag and a buffer, with or without an initial CRC, returns
  the result of the hardware engine when the flag is true and of the software engine
  when it is false, for every hardware engine and on every target, SSE 4.2 or not: the
  result with the flag set is that of the engine passed in, never that of \<open>swCrc32c\<close> in
  its place.
\<close>

theorem calculateCrc_dispatch:
  "calculateCrc plat hw tbl mem [Boolean True, Buffer data n, Number S] = Returned (hw mem S data n) \<and>
   calculateCrc plat hw tbl mem [Boolean False, Buffer data n, Number S]
     = Returned (swCrc32c plat tbl mem S data n) \<and>
   calculateCrc plat hw tbl mem [Boolean True, Buffer data n] = Returned (hw mem 0 data n) \<and>
   calculateCrc plat hw tbl mem [Boolean False, Buffer data n]
     = Returned (swCrc32c plat tbl mem 0 data n)"
  by (simp add: calculateCrc_def info_at_def)

lemma sx_drop: "\<not> bit y k \<Longrightarrow> shift_xor (drop_bit k y) = drop_bit (Suc k) y"
  by (simp add: shift_xor_alt bit_iff_odd_drop_bit)

lemma crc_byte_high:
  assumes "take_bit 8 (y :: u32) = 0"
  shows "crc_byte y = drop_bit 8 y"
proof -
  have b: "\<not> bit y k" if "k < 8" for k
  proof
    assume "bit y k"
    then have "bit (take_bit 8 y) k" using that by (simp add: bit_take_bit_iff)
    then show False by (simp add: assms)
  qed
  have "shift_xor y = drop_bit (Suc 0) y"
    using sx_drop [of y 0] b [of 0] by simp
  then show ?thesis
    unfolding crc_byte_def
    by (simp add: sx_drop b eval_nat_numeral)
qed

lemma split_low: "(x :: u32) = take_bit 8 x XOR push_bit 8 (drop_bit 8 x)"
  by (rule bit_eqI) (auto simp: bit_simps dest: bit_imp_le_length)

lemma crc_byte_slice: "crc_byte x = slice_step x"
proof -
  have t: "take_bit 8 (push_bit 8 (drop_bit 8 x)) = 0"
    by (simp add: take_bit_push_bit)
  have d: "drop_bit 8 (push_bit 8 (drop_bit 8 x)) = drop_bit 8 x"
    by (rule bit_eqI) (auto simp: bit_simps dest: bit_imp_le_length)
  have "crc_byte x = crc_byte (take_bit 8 x XOR push_bit 8 (drop_bit 8 x))"
    using split_low [of x] by simp
  also have "\<dots> = crc_byte (take_bit 8 x) XOR drop_bit 8 x"
    by (simp only: crc_byte_xor crc_byte_high [OF t] d)
  finally show ?thesis
    by (simp add: slice_step_def low_byte_take_bit)
qed

lemma crc32_u8_eq: "crc32_u8 c b = crc_byte (c XOR ucast b)"
  by (simp only: crc32_u8_def spec_bit_step_eq funpow8 crc_byte_def)

lemma ucast_byte_32_64: "(ucast (ucast (b :: u8) :: u32) :: u64) = ucast b"
  by (rule bit_eqI) (auto simp: bit_simps dest: bit_imp_le_length)

lemma byte_step_hw: "byte_step crc32cTable (ucast c) b = ucast (crc32_u8 c b)"
proof -
  have "byte_step crc32cTable (ucast c) b = fold64 (ucast (c XOR ucast b))"
    by (simp add: byte_step_fold64 unsigned_xor_eq ucast_byte_32_64)
  then show ?thesis
    by (simp only: fold64_ucast crc32_u8_eq crc_byte_slice)
qed

lemma bytewise_hw:
  "bytewise crc32cTable (ucast c) bs = ucast (fold (\<lambda>b c. crc32_u8 c b) bs c)"
  unfolding bytewise_def
  by (induction bs arbitrary: c) (simp_all add: byte_step_hw)

lemma ucast_ones: "(ucast (0xFFFFFFFF :: u32) :: u64) = 0xFFFFFFFF"
  by simp

lemma ucast_xor_ones: "(ucast (r :: u32) :: u64) XOR 0xFFFFFFFF = ucast (r XOR 0xFFFFFFFF)"
  by (simp add: unsigned_xor_eq)

lemma crc32c_bytes_hw:
  "crc32c_bytes crc32cTable S (buf_bytes mem buf (unat n)) = hwCrc32c mem S buf n"
proof (cases "buf_bytes mem buf (unat n) = []")
  case True
  then show ?thesis
    by (simp add: crc32c_bytes_def hwCrc32c_def xor.assoc)
next
  case False
  then show ?thesis
    by (simp only: crc32c_bytes_def hwCrc32c_def if_False ucast_xor_ones bytewise_hw
          ucast_u32_u64_u32)
qed

lemma sse42_little_endian:
  "isSSE42Available plat \<Longrightarrow> host_byte_order (target plat) = LittleEndian"
  by (cases "target plat") (simp_all add: isSSE42Available_def cpuid_def)

text \<open>
  C2: where SSE 4.2 is available, the software engine and the hardware engine of the
  specification return the same checksum for every initial CRC and buffer, and the
  dispatcher returns the same value with the flag set and with the flag clear.
\<close>

theorem sw_hw_equivalent:
  assumes "isSSE42Available plat"
  shows "swCrc32c plat crc32cTable mem S buf n = hwCrc32c mem S buf n \<and>
         calculateCrc plat hwCrc32c crc32cTable mem [Boolean True, Buffer buf n, Number S]
           = calculateCrc plat hwCrc32c crc32cTable mem [Boolean False, Buffer buf n, Number S]"
proof -
  have "swCrc32c plat crc32cTable mem S buf n = hwCrc32c mem S buf n"
    by (simp only: swCrc32c_bytewise [OF sse42_little_endian [OF assms]] crc32c_bytes_hw)
  then show ?thesis
    by (simp add: calculateCrc_def info_at_def)
qed

theorem sw_hw_equivalent_witness:
  "isSSE42Available x86_host \<and>
   swCrc32c x86_host crc32cTable (\<lambda>a. ucast (a + 0x29)) 0 8 9
     = hwCrc32c (\<lambda>a. ucast (a + 0x29)) 0 8 9"
proof -
  have h: "isSSE42Available x86_host"
    by (simp add: isSSE42Available_def cpuid_def x86_host_def)
  show ?thesis
    using h sw_hw_equivalent [OF h] by simp
qed

section \<open>A big-endian host\<close>

lemma swCrc32c_one_word:
  assumes "buf AND 7 = 0"
  shows "swCrc32c plat crc32cTable mem S buf 8
         = ucast ((fold64 ^^ 8) ((ucast S XOR 0xFFFFFFFF) XOR load_u64 plat mem buf) XOR 0xFFFFFFFF)"
proof -
  define s0 where "s0 = \<lparr>next = buf, len = 8, crc = ucast S XOR 0xFFFFFFFF\<rparr>"
  define s1 where "s1 = \<lparr>next = buf + 8, len = 0,
     crc = (fold64 ^^ 8) ((ucast S XOR 0xFFFFFFFF) XOR load_u64 plat mem buf)\<rparr>"
  have a: "lead_loop plat crc32cTable mem s0 = s0"
    using assms by (subst lead_loop.simps) (simp add: lead_cond_def s0_def)
  have b: "bulk_loop plat crc32cTable mem s1 = s1"
    by (subst bulk_loop.simps) (simp add: bulk_cond_def s1_def)
  have c: "bulk_loop plat crc32cTable mem s0 = s1"
    by (subst bulk_loop.simps) (simp add: bulk_cond_def bulk_body_crc b [unfolded s1_def] s0_def s1_def)
  have d: "tail_loop plat crc32cTable mem s1 = s1"
    by (subst tail_loop.simps) (simp add: tail_cond_def s1_def)
  show ?thesis
    by (simp add: swCrc32c_def sw_accumulator_def Let_def a [unfolded s0_def] c [unfolded s0_def] d) (simp add: s1_def)
qed

text \<open>
  C5: the eight bytes \<^verbatim>\<open>12345678\<close> at the aligned address 0, initial CRC 0. On the
  big-endian host \<open>swCrc32c\<close> returns \<open>0x00F79D07\<close>; on the little-endian host it returns
  \<open>0x6087809A\<close>, which is what processing the eight bytes one at a time with row 0 gives.
\<close>

theorem swCrc32c_big_endian_host:
  "swCrc32c be_host crc32cTable (\<lambda>a. ucast (a + 0x31)) 0 0 8 = 0x00F79D07 \<and>
   swCrc32c x86_host crc32cTable (\<lambda>a. ucast (a + 0x31)) 0 0 8 = 0x6087809A \<and>
   crc32c_bytes crc32cTable 0 [0x31, 0x32, 0x33, 0x34, 0x35, 0x36, 0x37, 0x38] = 0x6087809A"
proof (intro conjI)
  have z: "(0 :: u64) AND 7 = 0" by simp
  show "swCrc32c be_host crc32cTable (\<lambda>a. ucast (a + 0x31)) 0 0 8 = 0x00F79D07"
    unfolding swCrc32c_one_word [OF z]
    by (simp add: load_u64_def be_host_def buf_bytes_8 funpow8 crc_eval)
  show "swCrc32c x86_host crc32cTable (\<lambda>a. ucast (a + 0x31)) 0 0 8 = 0x6087809A"
    unfolding swCrc32c_one_word [OF z]
    by (simp add: load_u64_def x86_host_def buf_bytes_8 funpow8 crc_eval)
  show "crc32c_bytes crc32cTable 0 [0x31, 0x32, 0x33, 0x34, 0x35, 0x36, 0x37, 0x38] = 0x6087809A"
    by (simp add: crc32c_bytes_def bytewise_fold64 crc_eval)
qed

section \<open>What the native load breaks on a big-endian host\<close>

text \<open>Unrolling the loops on a concrete state.\<close>

lemma lead_loop_step: "lead_cond s \<Longrightarrow> lead_loop p t m s = lead_loop p t m (byte_body p t m s)"
  by (subst lead_loop.simps) simp

lemma lead_loop_stop: "\<not> lead_cond s \<Longrightarrow> lead_loop p t m s = s"
  by (subst lead_loop.simps) simp

lemma bulk_loop_step: "bulk_cond s \<Longrightarrow> bulk_loop p t m s = bulk_loop p t m (bulk_body p t m s)"
  by (subst bulk_loop.simps) simp

lemma bulk_loop_stop: "\<not> bulk_cond s \<Longrightarrow> bulk_loop p t m s = s"
  by (subst bulk_loop.simps) simp

lemma tail_loop_step: "tail_cond s \<Longrightarrow> tail_loop p t m s = tail_loop p t m (byte_body p t m s)"
  by (subst tail_loop.simps) simp

lemma tail_loop_stop: "\<not> tail_cond s \<Longrightarrow> tail_loop p t m s = s"
  by (subst tail_loop.simps) simp

lemma bulk_cond_unat: "bulk_cond s \<longleftrightarrow> 8 \<le> unat (len s)"
  by (simp add: bulk_cond_def word_le_nat_alt)

lemmas run_unroll =
  lead_loop_step lead_loop_stop bulk_loop_step bulk_loop_stop tail_loop_step tail_loop_stop
  lead_cond_def bulk_cond_unat tail_cond_def
  byte_body_crc byte_step_fold64 bulk_body_crc load_u64_def buf_bytes_8

text \<open>
  C1: the nine ASCII bytes \<^verbatim>\<open>123456789\<close> at the aligned address 8, initial CRC 0, with
  the table that \<open>initCrcTable\<close> has built. On the big-endian host \<open>swCrc32c\<close> returns
  \<open>0xCEE6525A\<close>, where the check value is \<open>0xE3069283\<close>; the little-endian host returns
  the check value.
\<close>

theorem swCrc32c_check_value_big_endian:
  "buf_bytes (\<lambda>a. ucast (a + 0x29)) 8 9 = [0x31, 0x32, 0x33, 0x34, 0x35, 0x36, 0x37, 0x38, 0x39] \<and>
   swCrc32c be_host crc32cTable (\<lambda>a. ucast (a + 0x29)) 0 8 9 = 0xCEE6525A \<and>
   swCrc32c x86_host crc32cTable (\<lambda>a. ucast (a + 0x29)) 0 8 9 = 0xE3069283"
proof (intro conjI)
  show "buf_bytes (\<lambda>a. ucast (a + 0x29)) 8 9 = [0x31, 0x32, 0x33, 0x34, 0x35, 0x36, 0x37, 0x38, 0x39]"
    by (simp add: buf_bytes_9)
  show "swCrc32c be_host crc32cTable (\<lambda>a. ucast (a + 0x29)) 0 8 9 = 0xCEE6525A"
    unfolding swCrc32c_def sw_accumulator_def Let_def
    by (simp add: run_unroll be_host_def | simp add: funpow8 crc_eval)+
  show "swCrc32c x86_host crc32cTable (\<lambda>a. ucast (a + 0x29)) 0 8 9 = 0xE3069283"
    unfolding swCrc32c_def sw_accumulator_def Let_def
    by (simp add: run_unroll x86_host_def | simp add: funpow8 crc_eval)+
qed

text \<open>
  C4: \<open>A\<close> is the four bytes \<^verbatim>\<open>1234\<close> at address 0 and \<open>B\<close> the four bytes \<^verbatim>\<open>5678\<close> at
  address 4, so that \<open>A @ B\<close> is the eight bytes at address 0; the seed is 0. On the
  big-endian host one call over \<open>A @ B\<close> returns \<open>0x00F79D07\<close>, and the call over \<open>B\<close>
  seeded with the result for \<open>A\<close> returns \<open>0x6087809A\<close>.
\<close>

theorem swCrc32c_chaining_big_endian:
  "buf_bytes (\<lambda>a. ucast (a + 0x31)) 0 8
     = buf_bytes (\<lambda>a. ucast (a + 0x31)) 0 4 @ buf_bytes (\<lambda>a. ucast (a + 0x31)) 4 4 \<and>
   swCrc32c be_host crc32cTable (\<lambda>a. ucast (a + 0x31)) 0 0 8 = 0x00F79D07 \<and>
   swCrc32c be_host crc32cTable (\<lambda>a. ucast (a + 0x31))
     (swCrc32c be_host crc32cTable (\<lambda>a. ucast (a + 0x31)) 0 0 4) 4 4 = 0x6087809A"
proof (intro conjI)
  show "buf_bytes (\<lambda>a. ucast (a + 0x31)) 0 8
     = buf_bytes (\<lambda>a. ucast (a + 0x31)) 0 4 @ buf_bytes (\<lambda>a. ucast (a + 0x31)) 4 4"
    using buf_bytes_add [of "\<lambda>a. ucast (a + 0x31)" 0 4 4] by simp
  show "swCrc32c be_host crc32cTable (\<lambda>a. ucast (a + 0x31)) 0 0 8 = 0x00F79D07"
    unfolding swCrc32c_def sw_accumulator_def Let_def
    by (simp add: run_unroll be_host_def | simp add: funpow8 crc_eval)+
  have a: "swCrc32c be_host crc32cTable (\<lambda>a. ucast (a + 0x31)) 0 0 4 = 0xF63AF4EE"
    unfolding swCrc32c_def sw_accumulator_def Let_def
    by (simp add: run_unroll be_host_def | simp add: funpow8 crc_eval)+
  show "swCrc32c be_host crc32cTable (\<lambda>a. ucast (a + 0x31))
     (swCrc32c be_host crc32cTable (\<lambda>a. ucast (a + 0x31)) 0 0 4) 4 4 = 0x6087809A"
    unfolding a
    unfolding swCrc32c_def sw_accumulator_def Let_def
    by (simp add: run_unroll be_host_def | simp add: funpow8 crc_eval)+
qed

text \<open>
  C6: a memory that holds the same nine bytes at address 0 and, after four padding
  bytes, at address 4; initial CRC 5. On the big-endian host \<open>swCrc32c\<close> returns
  \<open>0x20D5A77C\<close> for the buffer at address 0 and \<open>0x9A5FC399\<close> for the buffer at address 4.
\<close>

theorem swCrc32c_alignment_big_endian:
  "buf_bytes (\<lambda>a. ucast (a AND 3)) 0 9 = buf_bytes (\<lambda>a. ucast (a AND 3)) 4 9 \<and>
   swCrc32c be_host crc32cTable (\<lambda>a. ucast (a AND 3)) 5 0 9 = 0x20D5A77C \<and>
   swCrc32c be_host crc32cTable (\<lambda>a. ucast (a AND 3)) 5 4 9 = 0x9A5FC399"
proof (intro conjI)
  show "buf_bytes (\<lambda>a. ucast (a AND 3)) 0 9 = buf_bytes (\<lambda>a. ucast (a AND 3)) 4 9"
    by (simp add: buf_bytes_9)
  show "swCrc32c be_host crc32cTable (\<lambda>a. ucast (a AND 3)) 5 0 9 = 0x20D5A77C"
    unfolding swCrc32c_def sw_accumulator_def Let_def
    by (simp add: run_unroll be_host_def | simp add: funpow8 crc_eval)+
  show "swCrc32c be_host crc32cTable (\<lambda>a. ucast (a AND 3)) 5 4 9 = 0x9A5FC399"
    unfolding swCrc32c_def sw_accumulator_def Let_def
    by (simp add: run_unroll be_host_def | simp add: funpow8 crc_eval)+
qed

end
